theory Spec2Isabelle
  imports Main
begin

section \<open>Shared types\<close>

text \<open>
  A UUID is an opaque identifier; the model uses natural numbers for them. Every
  exception class the modelled snippets raise or let through is a constructor of
  \<open>error\<close>: the application errors of the error-handling pattern
  (\<open>src/utils/exceptions.py\<close>), wrapped in \<open>Asyncpg\<close> a driver
  exception that is propagated unchanged, and Python's \<open>TypeError\<close>, raised when
  a constructor is called with too few arguments.
\<close>

type_synonym UUID = nat

datatype asyncpg_error =
    UniqueViolationError
  | ForeignKeyViolationError
  | CheckViolationError
  | PostgresConnectionError
  | OtherPostgresError

datatype error =
    ValidationError
  | AuthenticationError
  | AuthorizationError
  | NotFoundError
  | ConflictError
  | WorkflowError
  | DatabaseError
  | ExternalServiceError
  | ServiceUnavailableError
  | Asyncpg asyncpg_error
  | TypeError

text \<open>
  The claims of the access token (JWT structure), as the \<open>User\<close> a handler
  receives; its \<open>id\<close> and \<open>name\<close> are the fields \<open>user_id\<close> and
  \<open>user_name\<close>.
\<close>

record User =
  user_id :: UUID
  email :: string
  user_name :: string
  org_id :: UUID
  org_role :: string

section \<open>Audit log and transactions\<close>

text \<open>
  One row of \<open>audit_log\<close>. The per-organization database holds the business
  tables (kept abstract as \<open>'d\<close>) and the audit table side by side.
\<close>

record audit_row =
  audit_id :: UUID
  audit_user_id :: UUID
  action :: string
  entity_type :: string
  entity_id :: UUID
  before_state :: "string option"
  after_state :: "string option"
  correlation_id :: string
  created_at :: nat

record 'd org_db =
  tables :: 'd
  audit_log :: "audit_row list"













section \<open>Role-based access control\<close>

subsection \<open>Permission check of the authorization architecture\<close>

datatype Permission =
    VIEW_ITEMS
  | CREATE_ITEMS
  | UPDATE_ITEMS
  | DELETE_ITEMS
  | MANAGE_WORKSTREAMS
  | MANAGE_SETTINGS
  | DELETE_PROJECT
  | ASSIGN_ROLES
  | EDIT_BUDGET

definition ROLE_PERMISSIONS :: "string \<rightharpoonup> Permission set" where
  "ROLE_PERMISSIONS =
     [''viewer'' \<mapsto> {VIEW_ITEMS},
      ''team_member'' \<mapsto> {VIEW_ITEMS, CREATE_ITEMS, UPDATE_ITEMS},
      ''project_manager'' \<mapsto>
        {VIEW_ITEMS, CREATE_ITEMS, UPDATE_ITEMS, DELETE_ITEMS, MANAGE_WORKSTREAMS,
         MANAGE_SETTINGS, EDIT_BUDGET},
      ''admin'' \<mapsto>
        {VIEW_ITEMS, CREATE_ITEMS, UPDATE_ITEMS, DELETE_ITEMS, MANAGE_WORKSTREAMS,
         MANAGE_SETTINGS, DELETE_PROJECT, ASSIGN_ROLES, EDIT_BUDGET}]"

text \<open>
  \<open>check_permission\<close>. The role lookup \<open>get_user_project_role\<close> (a read of
  \<open>user_project_roles\<close>) is a parameter; \<open>ROLE_PERMISSIONS.get(role, set())\<close>
  gives the empty set for an unknown role.
\<close>

definition check_permission ::
  "(UUID \<Rightarrow> UUID \<Rightarrow> string option) \<Rightarrow> UUID \<Rightarrow> UUID \<Rightarrow> Permission \<Rightarrow> bool" where
  "check_permission get_user_project_role uid project_id permission =
     (case get_user_project_role uid project_id of
        None \<Rightarrow> False
      | Some role \<Rightarrow>
          permission \<in> (case ROLE_PERMISSIONS role of None \<Rightarrow> {} | Some ps \<Rightarrow> ps))"

text \<open>
  \<open>require_permission\<close>: the decorator's wrapper. The handler \<open>func\<close> works on
  the organization's database and is called only when the check allows.
\<close>

definition require_permission ::
  "(UUID \<Rightarrow> UUID \<Rightarrow> string option) \<Rightarrow> Permission \<Rightarrow>
   (UUID \<Rightarrow> User \<Rightarrow> 'd org_db \<Rightarrow> (error + 'r) \<times> 'd org_db) \<Rightarrow>
   UUID \<Rightarrow> User \<Rightarrow> 'd org_db \<Rightarrow> (error + 'r) \<times> 'd org_db" where
  "require_permission get_user_project_role permission func project_id current_user db =
     (if \<not> check_permission get_user_project_role (user_id current_user) project_id permission
      then (Inl AuthorizationError, db)
      else func project_id current_user db)"

text \<open>
  \<open>send_chat_message\<close> (AI integration, RBAC enforcement). The session lookup, the
  context builders and the call to the model are parameters. The handler awaits
  \<open>check_permission\<close> and does nothing with the boolean it returns.
\<close>

record chat_session =
  session_project_id :: "UUID option"

definition send_chat_message ::
  "(UUID \<Rightarrow> UUID \<Rightarrow> string option) \<Rightarrow> (UUID \<Rightarrow> UUID \<Rightarrow> error + chat_session) \<Rightarrow>
   (UUID \<Rightarrow> UUID \<Rightarrow> 'ctx) \<Rightarrow> (UUID \<Rightarrow> UUID \<Rightarrow> 'ctx) \<Rightarrow> ('msgs \<Rightarrow> 'ctx \<Rightarrow> 'resp) \<Rightarrow>
   UUID \<Rightarrow> 'msgs \<Rightarrow> User \<Rightarrow> error + 'resp" where
  "send_chat_message get_user_project_role get_session build_project_context build_org_context
     send_message session_id messages current_user =
     (case get_session session_id (user_id current_user) of
        Inl e \<Rightarrow> Inl e
      | Inr session \<Rightarrow>
          (let context =
             (case session_project_id session of
                Some project_id \<Rightarrow>
                  (let discarded = check_permission get_user_project_role
                                     (user_id current_user) project_id VIEW_ITEMS
                   in build_project_context project_id (user_id current_user))
              | None \<Rightarrow> build_org_context (org_id current_user) (user_id current_user))
           in Inr (send_message messages context)))"

subsection \<open>Permission check of the permission-check flows\<close>

text \<open>
  The flows have a \<open>Permission\<close> enum of their own; it is \<open>ProjectPermission\<close>
  here, and its member \<open>EDIT_BUDGET\<close> is \<open>EDIT_PROJECT_BUDGET\<close>.
\<close>

datatype ProjectPermission =
    VIEW
  | CREATE
  | EDIT
  | DELETE
  | MANAGE_TEAM
  | EDIT_PROJECT_BUDGET

definition PROJECT_ROLE_PERMISSIONS :: "string \<rightharpoonup> ProjectPermission set" where
  "PROJECT_ROLE_PERMISSIONS =
     [''admin'' \<mapsto> {VIEW, CREATE, EDIT, DELETE, MANAGE_TEAM, EDIT_PROJECT_BUDGET},
      ''project_manager'' \<mapsto> {VIEW, CREATE, EDIT, DELETE, EDIT_PROJECT_BUDGET},
      ''team_member'' \<mapsto> {VIEW, CREATE, EDIT},
      ''viewer'' \<mapsto> {VIEW}]"

text \<open>
  \<open>check_project_permission\<close>: the organization role is looked at first; then
  \<open>if not project_role\<close> rejects both a missing role and an empty string.
\<close>

definition check_project_permission ::
  "(UUID \<Rightarrow> UUID \<Rightarrow> string option) \<Rightarrow> (UUID \<Rightarrow> UUID \<Rightarrow> string option) \<Rightarrow>
   UUID \<Rightarrow> UUID \<Rightarrow> ProjectPermission \<Rightarrow> bool" where
  "check_project_permission get_user_org_role get_user_project_role uid project_id permission =
     (if get_user_org_role uid project_id = Some ''owner''
         \<or> get_user_org_role uid project_id = Some ''admin''
      then True
      else
        (case get_user_project_role uid project_id of
           None \<Rightarrow> False
         | Some project_role \<Rightarrow>
             if project_role = [] then False
             else permission \<in>
                    (case PROJECT_ROLE_PERMISSIONS project_role of
                       None \<Rightarrow> {}
                     | Some ps \<Rightarrow> ps)))"

section \<open>Central directory\<close>

record organization =
  organization_id :: UUID
  organization_name :: string
  slug :: string
  database_name :: string
  deleted_at :: "nat option"

text \<open>
  The central database as one query sees it: the \<open>organizations\<close> table by id, or
  the driver exception when the store cannot be reached.
\<close>

type_synonym central_db = "asyncpg_error + (UUID \<rightharpoonup> organization)"

definition central_state :: "asyncpg_error option \<Rightarrow> (UUID \<rightharpoonup> organization) \<Rightarrow> central_db" where
  "central_state avail orgs = (case avail of Some e \<Rightarrow> Inl e | None \<Rightarrow> Inr orgs)"

text \<open>
  \<open>execute_one(central_pool, "SELECT database_name FROM organizations WHERE id = $1", org_id)\<close>:
  \<open>AuroraService.execute_one\<close> acquires a connection and fetches one row; it catches
  nothing, so a driver exception passes through. The query selects on \<open>id\<close> alone.
\<close>

definition select_database_name :: "central_db \<Rightarrow> UUID \<Rightarrow> error + string option" where
  "select_database_name central oid =
     (case central of
        Inl e \<Rightarrow> Inl (Asyncpg e)
      | Inr organizations \<Rightarrow>
          Inr (case organizations oid of
                 None \<Rightarrow> None
               | Some org \<Rightarrow> Some (database_name org)))"

text \<open>\<open>execute_with_error_handling\<close> (Database Error Mapping), on the outcome of the fetch.\<close>

definition execute_with_error_handling :: "asyncpg_error + 'rows \<Rightarrow> error + 'rows" where
  "execute_with_error_handling fetched =
     (case fetched of
        Inr rows \<Rightarrow> Inr rows
      | Inl UniqueViolationError \<Rightarrow> Inl ConflictError
      | Inl ForeignKeyViolationError \<Rightarrow> Inl ValidationError
      | Inl CheckViolationError \<Rightarrow> Inl ValidationError
      | Inl PostgresConnectionError \<Rightarrow> Inl ServiceUnavailableError
      | Inl OtherPostgresError \<Rightarrow> Inl (Asyncpg OtherPostgresError))"

section \<open>Connection pools\<close>

text \<open>
  The arguments a pool is created with. A pool object is identified by its address in
  the list of constructed pools (\<open>created\<close>): the \<open>n\<close>-th successful
  \<open>asyncpg.create_pool\<close> returns a new object with address \<open>n\<close>, stored with
  the registry key it was constructed for. \<open>outcome\<close> is the environment's answer
  to the construction: \<open>None\<close> when the target store accepts the connections,
  \<open>Some e\<close> when \<open>create_pool\<close> raises \<open>e\<close>.
\<close>

record pool =
  dsn :: "string option"
  database :: "string option"
  min_size :: nat
  max_size :: nat
  max_inactive_connection_lifetime :: "nat option"

definition create_pool ::
  "error option \<Rightarrow> 'k \<Rightarrow> pool \<Rightarrow> ('k \<times> pool) list \<Rightarrow> (error + nat) \<times> ('k \<times> pool) list" where
  "create_pool outcome key args heap =
     (case outcome of
        Some e \<Rightarrow> (Inl e, heap)
      | None \<Rightarrow> (Inr (length heap), heap @ [(key, args)]))"

subsection \<open>The registry of the database architecture (double-checked locking)\<close>

record aurora =
  pools :: "string \<rightharpoonup> nat"
  pool_lock :: bool
  created :: "(string \<times> pool) list"

definition aurora_init :: aurora where
  "aurora_init = \<lparr>pools = Map.empty, pool_lock = False, created = []\<rparr>"

definition org_pool_args :: "(string \<Rightarrow> string) \<Rightarrow> string \<Rightarrow> pool" where
  "org_pool_args build_dsn database_name' =
     \<lparr>dsn = Some (build_dsn database_name'), database = None, min_size = 2, max_size = 10,
      max_inactive_connection_lifetime = Some 300\<rparr>"

text \<open>
  \<open>AuroraService.get_org_pool\<close> run without interruption. \<open>_build_dsn\<close> is a
  parameter. The result is \<open>None\<close> when the call finds the lock taken: alone, it
  would wait for it and not return.
\<close>

definition get_org_pool ::
  "(string \<Rightarrow> string) \<Rightarrow> error option \<Rightarrow> string \<Rightarrow> aurora \<Rightarrow> ((error + nat) \<times> aurora) option" where
  "get_org_pool build_dsn outcome database_name' s =
     (case pools s database_name' of
        Some p \<Rightarrow> Some (Inr p, s)
      | None \<Rightarrow>
          if pool_lock s then None
          else
            (let s1 = s\<lparr>pool_lock := True\<rparr> in
             case pools s1 database_name' of
               Some p \<Rightarrow> Some (Inr p, s1\<lparr>pool_lock := False\<rparr>)
             | None \<Rightarrow>
                 (case create_pool outcome database_name'
                         (org_pool_args build_dsn database_name') (created s1) of
                    (Inl e, heap) \<Rightarrow> Some (Inl e, s1\<lparr>pool_lock := False\<rparr>)
                  | (Inr p, heap) \<Rightarrow>
                      Some (Inr p,
                            s1\<lparr>created := heap,
                               pools := (pools s1)(database_name' \<mapsto> p),
                               pool_lock := False\<rparr>))))"

text \<open>
  \<open>get_org_connection\<close> of the database architecture. When the query finds no
  row it evaluates \<open>NotFoundError("Organization not found")\<close>; the constructor of
  \<open>NotFoundError\<close> takes \<open>(resource, identifier)\<close>, so the call with one
  argument raises \<open>TypeError\<close> and no \<open>NotFoundError\<close> is ever raised.
\<close>

definition get_org_connection ::
  "(string \<Rightarrow> string) \<Rightarrow> central_db \<Rightarrow> error option \<Rightarrow> UUID \<Rightarrow> aurora \<Rightarrow>
   ((error + nat) \<times> aurora) option" where
  "get_org_connection build_dsn central outcome oid s =
     (case select_database_name central oid of
        Inl e \<Rightarrow> Some (Inl e, s)
      | Inr None \<Rightarrow> Some (Inl TypeError, s)
      | Inr (Some db) \<Rightarrow> get_org_pool build_dsn outcome db s)"


subsection \<open>Concurrent requests\<close>

text \<open>
  Requests run as coroutines on one event loop: a coroutine runs alone up to its next
  \<open>await\<close> that suspends, and another coroutine may run only there. One call of
  \<open>get_org_connection\<close> is a task with a program counter:
  \<^item> \<open>Resolving\<close>: awaiting the central query;
  \<^item> \<open>Start db\<close>: about to enter \<open>get_org_pool\<close> (first look at the dict);
  \<^item> \<open>WaitLock db\<close>: missed, at \<open>async with self._pool_lock\<close>;
  \<^item> \<open>Creating db\<close>: holds the lock, missed again, awaiting \<open>create_pool\<close>;
  \<^item> \<open>Done db p\<close>: returned the pool \<open>p\<close>; \<open>Failed e\<close>: raised \<open>e\<close>.
  Taking the lock and the second look happen in one step, since nothing is awaited
  between them; so do the insertion into the dict and the release of the lock. A
  task may be interrupted between the central query and the first look, and between
  the first look and the lock, although the coroutine is suspended there only when
  the lock is taken: the model has every interleaving of the coroutines and more.
\<close>

datatype pc =
    Resolving
  | Start string
  | WaitLock string
  | Creating string
  | Done string nat
  | Failed error

fun step ::
  "(string \<Rightarrow> string) \<Rightarrow> central_db \<Rightarrow> error option \<Rightarrow> UUID \<Rightarrow> pc \<Rightarrow> aurora \<Rightarrow> (pc \<times> aurora) option" where
  "step build_dsn central outcome oid Resolving s =
     Some (case select_database_name central oid of
             Inl e \<Rightarrow> (Failed e, s)
           | Inr None \<Rightarrow> (Failed TypeError, s)
           | Inr (Some db) \<Rightarrow> (Start db, s))"
| "step build_dsn central outcome oid (Start db) s =
     Some (case pools s db of
             Some p \<Rightarrow> (Done db p, s)
           | None \<Rightarrow> (WaitLock db, s))"
| "step build_dsn central outcome oid (WaitLock db) s =
     (if pool_lock s then None
      else Some (case pools s db of
                   Some p \<Rightarrow> (Done db p, s)
                 | None \<Rightarrow> (Creating db, s\<lparr>pool_lock := True\<rparr>)))"
| "step build_dsn central outcome oid (Creating db) s =
     Some (case create_pool outcome db (org_pool_args build_dsn db) (created s) of
             (Inl e, heap) \<Rightarrow> (Failed e, s\<lparr>pool_lock := False\<rparr>)
           | (Inr p, heap) \<Rightarrow>
               (Done db p,
                s\<lparr>created := heap, pools := (pools s)(db \<mapsto> p), pool_lock := False\<rparr>))"
| "step build_dsn central outcome oid (Done db p) s = None"
| "step build_dsn central outcome oid (Failed e) s = None"

text \<open>
  The configurations a server can reach from the empty registry: requests arrive for
  any organization at any time, and any task that can move takes its next step, in
  any order. The directory \<open>orgs\<close> is fixed; at each step the central store may be
  unreachable (\<open>avail\<close>) and a construction may fail (\<open>outcome\<close>).
\<close>

inductive reachable ::
  "(string \<Rightarrow> string) \<Rightarrow> (UUID \<rightharpoonup> organization) \<Rightarrow> (UUID \<times> pc) list \<Rightarrow> aurora \<Rightarrow> bool"
  for build_dsn :: "string \<Rightarrow> string" and orgs :: "UUID \<rightharpoonup> organization" where
  init: "reachable build_dsn orgs [] aurora_init"
| spawn: "reachable build_dsn orgs ts s \<Longrightarrow> reachable build_dsn orgs (ts @ [(oid, Resolving)]) s"
| run: "reachable build_dsn orgs ts s \<Longrightarrow> i < length ts \<Longrightarrow> ts ! i = (oid, c) \<Longrightarrow>
        step build_dsn (central_state avail orgs) outcome oid c s = Some (c', s') \<Longrightarrow>
        reachable build_dsn orgs (ts[i := (oid, c')]) s'"

text \<open>One task run alone for at most \<open>n\<close> steps.\<close>

fun run_task ::
  "nat \<Rightarrow> (string \<Rightarrow> string) \<Rightarrow> central_db \<Rightarrow> error option \<Rightarrow> UUID \<Rightarrow> pc \<Rightarrow> aurora \<Rightarrow> pc \<times> aurora" where
  "run_task 0 build_dsn central outcome oid c s = (c, s)"
| "run_task (Suc n) build_dsn central outcome oid c s =
     (case step build_dsn central outcome oid c s of
        None \<Rightarrow> (c, s)
      | Some (c', s') \<Rightarrow> run_task n build_dsn central outcome oid c' s')"

subsection \<open>The registry of the service architecture (no lock)\<close>

definition svc_pool_args :: "(string \<Rightarrow> string) \<Rightarrow> string \<Rightarrow> pool" where
  "svc_pool_args build_dsn database_name' =
     \<lparr>dsn = Some (build_dsn database_name'), database = None, min_size = 2, max_size = 10,
      max_inactive_connection_lifetime = None\<rparr>"

definition get_org_pool_svc ::
  "(string \<Rightarrow> string) \<Rightarrow> error option \<Rightarrow> string \<Rightarrow> aurora \<Rightarrow> (error + nat) \<times> aurora" where
  "get_org_pool_svc build_dsn outcome database_name' s =
     (case pools s database_name' of
        None \<Rightarrow>
          (case create_pool outcome database_name'
                  (svc_pool_args build_dsn database_name') (created s) of
             (Inl e, heap) \<Rightarrow> (Inl e, s)
           | (Inr p, heap) \<Rightarrow>
               (Inr p, s\<lparr>created := heap, pools := (pools s)(database_name' \<mapsto> p)\<rparr>))
      | Some p \<Rightarrow> (Inr p, s))"

subsection \<open>The cache of the multi-tenancy flows (keyed by organization id)\<close>

record tenancy =
  connection_pools :: "UUID \<rightharpoonup> nat"
  opened :: "(UUID \<times> pool) list"

definition tenancy_pool_args :: "organization \<Rightarrow> pool" where
  "tenancy_pool_args org =
     \<lparr>dsn = None, database = Some (database_name org), min_size = 2, max_size = 10,
      max_inactive_connection_lifetime = None\<rparr>"

text \<open>
  \<open>get_org_connection\<close> of the multi-tenancy flows. \<open>central_db.get_organization\<close>
  is a parameter: what the central database answers at the time of the call. Here
  the missing organization is \<open>NotFoundError("Organization", str(org_id))\<close>, a
  well-formed call.
\<close>

definition get_org_connection_cached ::
  "(UUID \<Rightarrow> error + organization option) \<Rightarrow> error option \<Rightarrow> UUID \<Rightarrow> tenancy \<Rightarrow>
   (error + nat) \<times> tenancy" where
  "get_org_connection_cached get_organization outcome oid s =
     (case connection_pools s oid of
        Some p \<Rightarrow> (Inr p, s)
      | None \<Rightarrow>
          (case get_organization oid of
             Inl e \<Rightarrow> (Inl e, s)
           | Inr None \<Rightarrow> (Inl NotFoundError, s)
           | Inr (Some org) \<Rightarrow>
               (case create_pool outcome oid (tenancy_pool_args org) (opened s) of
                  (Inl e, heap) \<Rightarrow> (Inl e, s)
                | (Inr p, heap) \<Rightarrow>
                    (Inr p, s\<lparr>opened := heap,
                              connection_pools := (connection_pools s)(oid \<mapsto> p)\<rparr>))))"

text \<open>
  Requests served one after the other; between two of them the central database may
  change in any way, so each request comes with its own directory answer.
\<close>

fun serve_all ::
  "((UUID \<Rightarrow> error + organization option) \<times> error option \<times> UUID) list \<Rightarrow> tenancy \<Rightarrow> tenancy" where
  "serve_all [] s = s"
| "serve_all ((get_organization, outcome, oid) # reqs) s =
     serve_all reqs (snd (get_org_connection_cached get_organization outcome oid s))"

subsection \<open>Concurrent requests on the two caches without a lock\<close>

text \<open>
  A call of \<open>get_org_connection\<close> of the multi-tenancy flows as a task:
  \<^item> \<open>Entering\<close>: about to test \<open>org_id in connection_pools\<close>;
  \<^item> \<open>Fetching\<close>: missed, awaiting \<open>central_db.get_organization\<close>;
  \<^item> \<open>Building org\<close>: awaiting \<open>create_pool\<close> for the record it fetched;
  \<^item> \<open>Finished p\<close>: returned the pool \<open>p\<close>; \<open>Raised e\<close>: raised \<open>e\<close>.
  The assignment to the dict and the return follow the construction with no
  \<open>await\<close> in between. The environment of a step is what the central database
  answers and how the construction ends.
\<close>

datatype cached_pc =
    Entering
  | Fetching
  | Building organization
  | Finished nat
  | Raised error

fun step_cached ::
  "(UUID \<Rightarrow> error + organization option) \<times> error option \<Rightarrow> UUID \<Rightarrow> cached_pc \<Rightarrow> tenancy \<Rightarrow>
   (cached_pc \<times> tenancy) option" where
  "step_cached (get_organization, outcome) oid Entering s =
     Some (case connection_pools s oid of
             Some p \<Rightarrow> (Finished p, s)
           | None \<Rightarrow> (Fetching, s))"
| "step_cached (get_organization, outcome) oid Fetching s =
     Some (case get_organization oid of
             Inl e \<Rightarrow> (Raised e, s)
           | Inr None \<Rightarrow> (Raised NotFoundError, s)
           | Inr (Some org) \<Rightarrow> (Building org, s))"
| "step_cached (get_organization, outcome) oid (Building org) s =
     Some (case create_pool outcome oid (tenancy_pool_args org) (opened s) of
             (Inl e, heap) \<Rightarrow> (Raised e, s)
           | (Inr p, heap) \<Rightarrow>
               (Finished p,
                s\<lparr>opened := heap, connection_pools := (connection_pools s)(oid \<mapsto> p)\<rparr>))"
| "step_cached (get_organization, outcome) oid (Finished p) s = None"
| "step_cached (get_organization, outcome) oid (Raised e) s = None"

text \<open>
  A call of \<open>AuroraService.get_org_pool\<close> of the service architecture as a task,
  for the database name it was called with: \<open>SvcEntering\<close> tests
  \<open>database_name not in self._pools\<close>; \<open>SvcBuilding\<close> awaits \<open>create_pool\<close>,
  then assigns and returns the entry.
\<close>

datatype svc_pc =
    SvcEntering
  | SvcBuilding
  | SvcFinished nat
  | SvcRaised error

fun step_svc ::
  "(string \<Rightarrow> string) \<Rightarrow> error option \<Rightarrow> string \<Rightarrow> svc_pc \<Rightarrow> aurora \<Rightarrow> (svc_pc \<times> aurora) option" where
  "step_svc build_dsn outcome db SvcEntering s =
     Some (case pools s db of
             None \<Rightarrow> (SvcBuilding, s)
           | Some p \<Rightarrow> (SvcFinished p, s))"
| "step_svc build_dsn outcome db SvcBuilding s =
     Some (case create_pool outcome db (svc_pool_args build_dsn db) (created s) of
             (Inl e, heap) \<Rightarrow> (SvcRaised e, s)
           | (Inr p, heap) \<Rightarrow>
               (SvcFinished p, s\<lparr>created := heap, pools := (pools s)(db \<mapsto> p)\<rparr>))"
| "step_svc build_dsn outcome db (SvcFinished p) s = None"
| "step_svc build_dsn outcome db (SvcRaised e) s = None"

text \<open>A request is in flight once it is past its membership test and has not ended.\<close>

fun in_flight :: "cached_pc \<Rightarrow> bool" where
  "in_flight Fetching = True"
| "in_flight (Building org) = True"
| "in_flight c = False"

fun svc_in_flight :: "svc_pc \<Rightarrow> bool" where
  "svc_in_flight SvcBuilding = True"
| "svc_in_flight c = False"

text \<open>
  How a server goes on from a configuration \<open>(ts, s)\<close> of tasks and shared state:
  requests arrive with any key at any time (in the state \<open>entry\<close>), and any task
  takes its next step, in any order and in any environment.
\<close>

inductive evolves ::
  "('e \<Rightarrow> 'k \<Rightarrow> 'c \<Rightarrow> 's \<Rightarrow> ('c \<times> 's) option) \<Rightarrow> 'c \<Rightarrow> ('k \<times> 'c) list \<Rightarrow> 's \<Rightarrow>
   ('k \<times> 'c) list \<Rightarrow> 's \<Rightarrow> bool"
  for stepf :: "'e \<Rightarrow> 'k \<Rightarrow> 'c \<Rightarrow> 's \<Rightarrow> ('c \<times> 's) option" and entry :: 'c
    and ts :: "('k \<times> 'c) list" and s :: 's where
  start: "evolves stepf entry ts s ts s"
| arrive: "evolves stepf entry ts s ts' s' \<Longrightarrow> evolves stepf entry ts s (ts' @ [(k, entry)]) s'"
| move: "evolves stepf entry ts s ts' s' \<Longrightarrow> i < length ts' \<Longrightarrow> ts' ! i = (k, c) \<Longrightarrow>
         stepf e k c s' = Some (c', s'') \<Longrightarrow>
         evolves stepf entry ts s (ts'[i := (k, c')]) s''"

text \<open>One task run alone for at most \<open>n\<close> steps of \<open>stepf\<close>.\<close>

fun run_alone :: "nat \<Rightarrow> ('c \<Rightarrow> 's \<Rightarrow> ('c \<times> 's) option) \<Rightarrow> 'c \<Rightarrow> 's \<Rightarrow> 'c \<times> 's" where
  "run_alone 0 stepf c s = (c, s)"
| "run_alone (Suc n) stepf c s =
     (case stepf c s of
        None \<Rightarrow> (c, s)
      | Some (c', s') \<Rightarrow> run_alone n stepf c' s')"

text \<open>
  \<open>get_org_connection\<close> of the database architecture when \<open>services.aurora\<close> is
  the \<open>AuroraService\<close> of the service architecture: the same body, calling the
  \<open>get_org_pool\<close> that takes no lock.
\<close>

definition get_org_connection_svc ::
  "(string \<Rightarrow> string) \<Rightarrow> central_db \<Rightarrow> error option \<Rightarrow> UUID \<Rightarrow> aurora \<Rightarrow> (error + nat) \<times> aurora" where
  "get_org_connection_svc build_dsn central outcome oid s =
     (case select_database_name central oid of
        Inl e \<Rightarrow> (Inl e, s)
      | Inr None \<Rightarrow> (Inl TypeError, s)
      | Inr (Some db) \<Rightarrow> get_org_pool_svc build_dsn outcome db s)"

section \<open>Invariants\<close>

text \<open>What a finished task returned to its caller.\<close>

definition returned :: "pc \<Rightarrow> (error + nat) option" where
  "returned c = (case c of Done db p \<Rightarrow> Some (Inr p) | Failed e \<Rightarrow> Some (Inl e) | _ \<Rightarrow> None)"

text \<open>A task holds \<open>_pool_lock\<close> exactly while it awaits the construction.\<close>

definition holds_lock :: "UUID \<times> pc \<Rightarrow> nat" where
  "holds_lock t = (case snd t of Creating db \<Rightarrow> 1 | _ \<Rightarrow> 0)"

text \<open>The database name \<open>db\<close> is the one the directory records for the organization.\<close>

definition resolved :: "(UUID \<rightharpoonup> organization) \<Rightarrow> UUID \<Rightarrow> string \<Rightarrow> bool" where
  "resolved orgs oid db = (map_option database_name (orgs oid) = Some db)"

text \<open>
  The registry and the constructed pools agree: an entry points to a pool constructed
  for its key, and every constructed pool is the entry of its key and was built with
  the arguments of that key.
\<close>

definition registry_ok :: "(string \<Rightarrow> string) \<Rightarrow> aurora \<Rightarrow> bool" where
  "registry_ok build_dsn s =
     ((\<forall>db p. pools s db = Some p \<longrightarrow> p < length (created s) \<and> fst (created s ! p) = db)
      \<and> (\<forall>p < length (created s).
            pools s (fst (created s ! p)) = Some p
            \<and> snd (created s ! p) = org_pool_args build_dsn (fst (created s ! p))))"

fun task_ok :: "(UUID \<rightharpoonup> organization) \<Rightarrow> aurora \<Rightarrow> UUID \<times> pc \<Rightarrow> bool" where
  "task_ok orgs s (oid, Resolving) = True"
| "task_ok orgs s (oid, Start db) = resolved orgs oid db"
| "task_ok orgs s (oid, WaitLock db) = resolved orgs oid db"
| "task_ok orgs s (oid, Creating db) = (resolved orgs oid db \<and> pools s db = None)"
| "task_ok orgs s (oid, Done db p) = (resolved orgs oid db \<and> pools s db = Some p)"
| "task_ok orgs s (oid, Failed e) = True"

definition tasks_ok :: "(UUID \<rightharpoonup> organization) \<Rightarrow> (UUID \<times> pc) list \<Rightarrow> aurora \<Rightarrow> bool" where
  "tasks_ok orgs ts s =
     (sum_list (map holds_lock ts) = (if pool_lock s then 1 else 0)
      \<and> (\<forall>t \<in> set ts. task_ok orgs s t))"

text \<open>
  A key has an entry and no request for it is in flight: every request for it is
  still before its membership test or has ended.
\<close>

definition quiet_entry :: "UUID \<Rightarrow> nat \<Rightarrow> (UUID \<times> cached_pc) list \<Rightarrow> tenancy \<Rightarrow> bool" where
  "quiet_entry oid p us u =
     (connection_pools u oid = Some p \<and> (\<forall>c. (oid, c) \<in> set us \<longrightarrow> \<not> in_flight c))"

definition svc_quiet_entry :: "string \<Rightarrow> nat \<Rightarrow> (string \<times> svc_pc) list \<Rightarrow> aurora \<Rightarrow> bool" where
  "svc_quiet_entry db p us u =
     (pools u db = Some p \<and> (\<forall>c. (db, c) \<in> set us \<longrightarrow> \<not> svc_in_flight c))"

definition tenancy_init :: tenancy where
  "tenancy_init = \<lparr>connection_pools = Map.empty, opened = []\<rparr>"


section \<open>Results on access control\<close>

lemma check_project_permission_override:
  assumes "get_user_org_role uid pid = Some ''owner'' \<or> get_user_org_role uid pid = Some ''admin''"
  shows "check_project_permission get_user_org_role get_user_project_role uid pid permission"
  using assms by (simp add: check_project_permission_def)

text \<open>
  C1 (organizational override). The permission check of the authorization
  architecture never looks at the organization role: for Jane, whose token carries
  \<open>org_role = "admin"\<close> and who has no role record on project 7, the check for
  \<open>VIEW_ITEMS\<close> answers \<open>False\<close> and the guarded handler is refused with
  \<open>AuthorizationError\<close>. The sibling check of the permission-check flows does
  implement the override (\<open>check_project_permission_override\<close>).
\<close>

theorem check_permission_denies_org_admin:
  "org_role \<lparr>user_id = 1, email = ''jane@example.com'', user_name = ''Jane Smith'',
              org_id = 2, org_role = ''admin''\<rparr> = ''admin''
   \<and> check_permission (\<lambda>u p. None) 1 7 VIEW_ITEMS = False
   \<and> require_permission (\<lambda>u p. None) VIEW_ITEMS func 7
         \<lparr>user_id = 1, email = ''jane@example.com'', user_name = ''Jane Smith'',
          org_id = 2, org_role = ''admin''\<rparr> db
       = (Inl AuthorizationError, db)"
  by (simp add: check_permission_def require_permission_def)

text \<open>
  C4 as stated fails: a subject with no project role record is not treated as a
  viewer for read actions. Both checks deny the read.
\<close>

theorem no_role_read_counterexample:
  "\<not> check_permission (\<lambda>u p. None) 1 7 VIEW_ITEMS
   \<and> \<not> check_project_permission (\<lambda>u p. Some ''member'') (\<lambda>u p. None) 1 7 VIEW"
  by (simp add: check_permission_def check_project_permission_def)

text \<open>
  C4, amended: for a subject with no project role record on the project (and an
  organization role that is neither owner nor admin), the permission check denies
  every action, read actions included.
\<close>

theorem no_project_role_denies_all:
  assumes "get_user_project_role uid pid = None"
    and "get_user_org_role uid pid \<noteq> Some ''owner''"
    and "get_user_org_role uid pid \<noteq> Some ''admin''"
  shows "\<not> check_permission get_user_project_role uid pid permission
         \<and> \<not> check_project_permission get_user_org_role get_user_project_role uid pid
               project_permission"
  using assms by (simp add: check_permission_def check_project_permission_def)

theorem no_project_role_denies_all_witness:
  "\<not> check_permission (\<lambda>u p. if p = 3 then Some ''viewer'' else None) 1 7 DELETE_ITEMS
   \<and> \<not> check_project_permission (\<lambda>u p. Some ''member'')
         (\<lambda>u p. if p = 3 then Some ''viewer'' else None) 1 7 VIEW"
  using no_project_role_denies_all
    [where get_user_project_role = "\<lambda>u p. if p = 3 then Some ''viewer'' else None"
       and get_user_org_role = "\<lambda>u p. Some ''member''" and uid = 1 and pid = 7
       and permission = DELETE_ITEMS and project_permission = VIEW]
  by simp

text \<open>
  A handler under the decorator is short-circuited: when the permission check denies,
  \<open>require_permission\<close> raises \<open>AuthorizationError\<close> and leaves the
  organization's database as it was, whatever the handler is. The role lookup of the
  check is itself a read of the organization's database and comes before the
  decision.
\<close>

lemma require_permission_denied_short_circuits:
  assumes "\<not> check_permission get_user_project_role (user_id current_user) project_id permission"
  shows "require_permission get_user_project_role permission func project_id current_user db
           = (Inl AuthorizationError, db)
         \<and> audit_log (snd (require_permission get_user_project_role permission func
                              project_id current_user db)) = audit_log db"
  using assms by (simp add: require_permission_def)

lemma require_permission_denied_example:
  "\<not> check_permission (\<lambda>u p. Some ''viewer'') 1 7 DELETE_ITEMS
   \<and> require_permission (\<lambda>u p. Some ''viewer'') DELETE_ITEMS
         (\<lambda>p u d. (Inr (), d\<lparr>tables := []\<rparr>)) 7
         \<lparr>user_id = 1, email = ''v@example.com'', user_name = ''V'', org_id = 2,
          org_role = ''member''\<rparr>
         \<lparr>tables = [''item 1''], audit_log = []\<rparr>
       = (Inl AuthorizationError, \<lparr>tables = [''item 1''], audit_log = []\<rparr>)"
proof -
  have denied: "\<not> check_permission (\<lambda>u p. Some ''viewer'')
                    (user_id \<lparr>user_id = 1, email = ''v@example.com'', user_name = ''V'',
                              org_id = 2, org_role = ''member''\<rparr>) 7 DELETE_ITEMS"
    by (simp add: check_permission_def ROLE_PERMISSIONS_def)
  show ?thesis
    using denied
      require_permission_denied_short_circuits
        [OF denied, where func = "\<lambda>p u d. (Inr (), d\<lparr>tables := []\<rparr>)"
           and db = "\<lparr>tables = [''item 1''], audit_log = []\<rparr>"]
    by simp
qed

text \<open>
  C7 (a denial short-circuits the request). \<open>send_chat_message\<close> awaits the same
  \<open>check_permission\<close> and drops its answer: for a member with no role on project
  7, whose session is on that project, the check answers \<open>False\<close>, and the handler
  still builds the context of project 7 and sends it to the model; nothing is
  raised. The decorator above and \<open>get_chat_context\<close> of the chat flows do act
  on the answer.
\<close>

theorem send_chat_message_ignores_denial:
  "check_permission (\<lambda>u p. None) 1 7 VIEW_ITEMS = False
   \<and> send_chat_message (\<lambda>u p. None) (\<lambda>sid u. Inr \<lparr>session_project_id = Some 7\<rparr>)
         build_project_context build_org_context send_message 5 messages
         \<lparr>user_id = 1, email = ''v@example.com'', user_name = ''V'', org_id = 2,
          org_role = ''member''\<rparr>
       = Inr (send_message messages (build_project_context 7 1))"
  by (simp add: check_permission_def send_chat_message_def)

section \<open>Results on the audit log\<close>












section \<open>Results on the directory lookup\<close>

lemma get_org_connection_no_row:
  "orgs oid = None \<Longrightarrow> get_org_connection bd (Inr orgs) outcome oid s = Some (Inl TypeError, s)"
  by (simp add: get_org_connection_def select_database_name_def)

lemma get_org_connection_unavailable:
  "get_org_connection bd (Inl e) outcome oid s = Some (Inl (Asyncpg e), s)
   \<and> Asyncpg e \<noteq> NotFoundError
   \<and> execute_with_error_handling (Inl PostgresConnectionError :: asyncpg_error + 'a)
       = Inl ServiceUnavailableError
   \<and> ServiceUnavailableError \<noteq> NotFoundError"
  by (simp add: get_org_connection_def select_database_name_def execute_with_error_handling_def)

text \<open>
  C5 (soft-deleted tenants are not found). The query of \<open>get_org_connection\<close>
  selects on \<open>id\<close> alone, so for an organization whose row is soft-deleted
  (\<open>deleted_at\<close> set) the lookup succeeds and the call returns a pool for its
  database instead of raising \<open>NotFoundError\<close>. An unreachable central store
  does give an error other than \<open>NotFoundError\<close>
  (\<open>get_org_connection_unavailable\<close>); a missing row gives \<open>TypeError\<close>,
  not \<open>NotFoundError\<close> either (\<open>get_org_connection_no_row\<close>).
\<close>

theorem soft_deleted_org_still_resolves:
  "get_org_connection (\<lambda>db. ''postgresql://db.internal/'' @ db)
     (Inr [1 \<mapsto> \<lparr>organization_id = 1, organization_name = ''Acme'', slug = ''acme'',
                  database_name = ''braidmgr_org_acme'', deleted_at = Some 1703419200\<rparr>])
     None 1 aurora_init
   = Some (Inr 0,
           \<lparr>pools = [''braidmgr_org_acme'' \<mapsto> 0], pool_lock = False,
            created = [(''braidmgr_org_acme'',
                        org_pool_args (\<lambda>db. ''postgresql://db.internal/'' @ db)
                          ''braidmgr_org_acme'')]\<rparr>)"
  by (simp add: get_org_connection_def select_database_name_def get_org_pool_def
        create_pool_def aurora_init_def)

section \<open>Results on the registry, one call at a time\<close>

lemma get_org_pool_hit:
  "pools s db = Some p \<Longrightarrow> get_org_pool bd outcome db s = Some (Inr p, s)"
  by (simp add: get_org_pool_def)

lemma aurora_lock_release: "\<not> pool_lock s \<Longrightarrow> s\<lparr>pool_lock := False\<rparr> = s"
  by (cases s) simp

lemma get_org_pool_miss_fail:
  "pools s db = None \<Longrightarrow> \<not> pool_lock s \<Longrightarrow> get_org_pool bd (Some e) db s = Some (Inl e, s)"
  by (simp add: get_org_pool_def create_pool_def aurora_lock_release)

lemma get_org_pool_miss_create:
  "pools s db = None \<Longrightarrow> \<not> pool_lock s \<Longrightarrow>
   get_org_pool bd None db s =
     Some (Inr (length (created s)),
           s\<lparr>created := created s @ [(db, org_pool_args bd db)],
              pools := (pools s)(db \<mapsto> length (created s))\<rparr>)"
  by (cases s) (simp add: get_org_pool_def create_pool_def)

text \<open>
  C8: when the construction fails during an acquire for a locator that has no entry,
  the call fails with the exception \<open>e\<close> that \<open>create_pool\<close> raised and the
  registry is exactly what it was (no entry for the locator, the lock released,
  nothing constructed); the next acquire for the same locator, on that state,
  constructs a pool anew and caches it.
\<close>

theorem failed_construction_not_cached:
  assumes "pools s db = None" and "\<not> pool_lock s"
  shows "get_org_pool build_dsn (Some e) db s = Some (Inl e, s)
         \<and> get_org_pool build_dsn None db s =
             Some (Inr (length (created s)),
                   s\<lparr>created := created s @ [(db, org_pool_args build_dsn db)],
                      pools := (pools s)(db \<mapsto> length (created s))\<rparr>)"
  using assms by (simp add: get_org_pool_miss_fail get_org_pool_miss_create)

theorem failed_construction_witness:
  "pools aurora_init ''braidmgr_org_acme'' = None \<and> \<not> pool_lock aurora_init
   \<and> get_org_pool (\<lambda>db. ''postgresql://db.internal/'' @ db)
         (Some (Asyncpg PostgresConnectionError)) ''braidmgr_org_acme'' aurora_init
       = Some (Inl (Asyncpg PostgresConnectionError), aurora_init)
   \<and> get_org_pool (\<lambda>db. ''postgresql://db.internal/'' @ db) None
         ''braidmgr_org_acme'' aurora_init
       = Some (Inr 0,
               \<lparr>pools = [''braidmgr_org_acme'' \<mapsto> 0], pool_lock = False,
                created = [(''braidmgr_org_acme'',
                            org_pool_args (\<lambda>db. ''postgresql://db.internal/'' @ db)
                              ''braidmgr_org_acme'')]\<rparr>)"
proof -
  have h: "pools aurora_init ''braidmgr_org_acme'' = None" "\<not> pool_lock aurora_init"
    by (simp_all add: aurora_init_def)
  show ?thesis
    using h failed_construction_not_cached [OF h, of "\<lambda>db. ''postgresql://db.internal/'' @ db"
        "Asyncpg PostgresConnectionError"]
    by (simp add: aurora_init_def)
qed

lemma take_prefix_trans:
  assumes "take (length xs) ys = xs" and "take (length ys) zs = ys"
  shows "take (length xs) zs = xs"
proof -
  have "length xs \<le> length ys"
    using assms(1) by (metis length_take min.cobounded1 min.commute)
  then have "take (length xs) zs = take (length xs) (take (length ys) zs)"
    by (simp add: min.absorb1)
  then show ?thesis using assms by simp
qed






section \<open>Results on concurrent requests\<close>

lemma registry_ok_init: "registry_ok bd aurora_init"
  by (simp add: registry_ok_def aurora_init_def)

lemma tasks_ok_init: "tasks_ok orgs [] aurora_init"
  by (simp add: tasks_ok_def aurora_init_def)

lemma tasks_ok_spawn: "tasks_ok orgs ts s \<Longrightarrow> tasks_ok orgs (ts @ [(oid, Resolving)]) s"
  by (auto simp: tasks_ok_def holds_lock_def)

lemma task_ok_lock: "task_ok orgs (s\<lparr>pool_lock := b\<rparr>) t = task_ok orgs s t"
  by (cases "(orgs, s, t)" rule: task_ok.cases) auto

lemma holds_lock_sum_update:
  "i < length ts \<Longrightarrow>
   sum_list (map holds_lock (ts[i := x])) = sum_list (map holds_lock ts) + holds_lock x - holds_lock (ts ! i)"
  by (simp add: map_update sum_list_update)

lemma holds_lock_le_sum: "t \<in> set ts \<Longrightarrow> holds_lock t \<le> sum_list (map holds_lock ts)"
  by (simp add: member_le_sum_list)

lemma holds_lock_simps [simp]:
  "holds_lock (oid, Resolving) = 0"
  "holds_lock (oid, Start db) = 0"
  "holds_lock (oid, WaitLock db) = 0"
  "holds_lock (oid, Creating db) = 1"
  "holds_lock (oid, Done db p) = 0"
  "holds_lock (oid, Failed e) = 0"
  by (simp_all add: holds_lock_def)

text \<open>A step that changes neither the dict nor the lock holder.\<close>

lemma tasks_ok_quiet_step:
  assumes "tasks_ok orgs ts s" and "i < length ts"
    and "holds_lock (ts ! i) = 0" and "holds_lock x = 0" and "task_ok orgs s x"
  shows "tasks_ok orgs (ts[i := x]) s"
proof -
  have "sum_list (map holds_lock (ts[i := x])) = sum_list (map holds_lock ts)"
    using assms by (simp add: holds_lock_sum_update)
  moreover have "\<forall>t \<in> set (ts[i := x]). task_ok orgs s t"
    using assms set_update_subset_insert [of ts i x] by (auto simp: tasks_ok_def)
  ultimately show ?thesis using assms(1) by (simp add: tasks_ok_def)
qed

lemma tasks_ok_take_lock:
  assumes "tasks_ok orgs ts s" and "i < length ts" and "ts ! i = (oid, WaitLock db)"
    and "\<not> pool_lock s" and "pools s db = None"
  shows "tasks_ok orgs (ts[i := (oid, Creating db)]) (s\<lparr>pool_lock := True\<rparr>)"
proof -
  have mem: "ts ! i \<in> set ts" using assms(2) by simp
  have res: "resolved orgs oid db"
    using assms(1,3) mem by (auto simp: tasks_ok_def)
  have "sum_list (map holds_lock (ts[i := (oid, Creating db)])) = 1"
    using assms by (simp add: holds_lock_sum_update tasks_ok_def)
  moreover have "\<forall>t \<in> set (ts[i := (oid, Creating db)]). task_ok orgs (s\<lparr>pool_lock := True\<rparr>) t"
  proof
    fix t assume "t \<in> set (ts[i := (oid, Creating db)])"
    then have "t = (oid, Creating db) \<or> t \<in> set ts"
      using set_update_subset_insert [of ts i "(oid, Creating db)"] by auto
    then have "task_ok orgs s t"
      using assms(1,5) res by (auto simp: tasks_ok_def)
    then show "task_ok orgs (s\<lparr>pool_lock := True\<rparr>) t"
      by (simp add: task_ok_lock)
  qed
  ultimately show ?thesis by (simp add: tasks_ok_def)
qed

lemma creating_holds:
  assumes "tasks_ok orgs ts s" and "i < length ts" and "ts ! i = (oid, Creating db)"
  shows "pool_lock s" and "sum_list (map holds_lock ts) = 1" and "pools s db = None"
    and "resolved orgs oid db"
proof -
  have mem: "(oid, Creating db) \<in> set ts" using assms(2,3) nth_mem by fastforce
  have "1 \<le> sum_list (map holds_lock ts)"
    using holds_lock_le_sum [OF mem] by simp
  then show "pool_lock s" using assms(1) by (auto simp: tasks_ok_def split: if_splits)
  then show "sum_list (map holds_lock ts) = 1" using assms(1) by (simp add: tasks_ok_def)
  show "pools s db = None" "resolved orgs oid db"
    using assms(1) mem by (auto simp: tasks_ok_def)
qed

lemma tasks_ok_create_failed:
  assumes "tasks_ok orgs ts s" and "i < length ts" and "ts ! i = (oid, Creating db)"
  shows "tasks_ok orgs (ts[i := (oid, Failed e)]) (s\<lparr>pool_lock := False\<rparr>)"
proof -
  have "sum_list (map holds_lock (ts[i := (oid, Failed e)])) = 0"
    using assms creating_holds(2) [OF assms] by (simp add: holds_lock_sum_update)
  moreover have "\<forall>t \<in> set (ts[i := (oid, Failed e)]). task_ok orgs (s\<lparr>pool_lock := False\<rparr>) t"
  proof
    fix t assume "t \<in> set (ts[i := (oid, Failed e)])"
    then have "t = (oid, Failed e) \<or> t \<in> set ts"
      using set_update_subset_insert [of ts i "(oid, Failed e)"] by auto
    then have "task_ok orgs s t"
      using assms(1) by (auto simp: tasks_ok_def)
    then show "task_ok orgs (s\<lparr>pool_lock := False\<rparr>) t"
      by (simp add: task_ok_lock)
  qed
  ultimately show ?thesis by (simp add: tasks_ok_def)
qed

lemma tasks_ok_create_done:
  assumes "tasks_ok orgs ts s" and "i < length ts" and "ts ! i = (oid, Creating db)"
  shows "tasks_ok orgs (ts[i := (oid, Done db p)])
           (s\<lparr>created := h, pools := (pools s)(db \<mapsto> p), pool_lock := False\<rparr>)"
    (is "tasks_ok orgs ?ts' ?s'")
proof -
  note c = creating_holds [OF assms]
  have sum0: "sum_list (map holds_lock ?ts') = 0"
    using assms c(2) by (simp add: holds_lock_sum_update)
  have "\<forall>t \<in> set ?ts'. task_ok orgs ?s' t"
  proof
    fix t assume t: "t \<in> set ?ts'"
    have nolock: "holds_lock t = 0"
      using holds_lock_le_sum [OF t] sum0 by simp
    from t have "t = (oid, Done db p) \<or> t \<in> set ts"
      using set_update_subset_insert [of ts i "(oid, Done db p)"] by auto
    then show "task_ok orgs ?s' t"
    proof
      assume "t = (oid, Done db p)"
      then show ?thesis using c(4) by simp
    next
      assume "t \<in> set ts"
      then have ok: "task_ok orgs s t" using assms(1) by (simp add: tasks_ok_def)
      show ?thesis
        using ok nolock c(3) by (cases "(orgs, s, t)" rule: task_ok.cases) auto
    qed
  qed
  then show ?thesis using sum0 by (simp add: tasks_ok_def)
qed

lemma registry_ok_lock: "registry_ok bd (s\<lparr>pool_lock := b\<rparr>) = registry_ok bd s"
  by (simp add: registry_ok_def)

lemma registry_ok_insert:
  assumes "registry_ok bd s" and "pools s db = None"
  shows "registry_ok bd
           (s\<lparr>created := created s @ [(db, org_pool_args bd db)],
              pools := (pools s)(db \<mapsto> length (created s)), pool_lock := b\<rparr>)"
  using assms
  by (auto simp: registry_ok_def nth_append less_Suc_eq)

lemma select_resolved:
  "select_database_name (central_state avail orgs) oid = Inr (Some db) \<Longrightarrow> resolved orgs oid db"
  by (auto simp: select_database_name_def central_state_def resolved_def
           split: option.splits)

lemma task_ok_nth: "tasks_ok orgs ts s \<Longrightarrow> i < length ts \<Longrightarrow> task_ok orgs s (ts ! i)"
  by (simp add: tasks_ok_def)

lemma step_preserves:
  assumes reg: "registry_ok bd s" and tasks: "tasks_ok orgs ts s"
    and i: "i < length ts" and at: "ts ! i = (oid, c)"
    and st: "step bd (central_state avail orgs) outcome oid c s = Some (c', s')"
  shows "registry_ok bd s' \<and> tasks_ok orgs (ts[i := (oid, c')]) s'"
proof (cases c)
  case Resolving
  have "s' = s" and "task_ok orgs s (oid, c')" and "holds_lock (oid, c') = 0"
    using st Resolving select_resolved [of avail orgs oid]
    by (auto split: sum.splits option.splits)
  then show ?thesis
    using reg tasks_ok_quiet_step [OF tasks i] at Resolving by simp
next
  case (Start db)
  have "resolved orgs oid db"
    using task_ok_nth [OF tasks i] at Start by simp
  then have "s' = s" and "task_ok orgs s (oid, c')" and "holds_lock (oid, c') = 0"
    using st Start by (auto split: option.splits)
  then show ?thesis
    using reg tasks_ok_quiet_step [OF tasks i] at Start by simp
next
  case (WaitLock db)
  have res: "resolved orgs oid db"
    using task_ok_nth [OF tasks i] at WaitLock by simp
  have free: "\<not> pool_lock s"
    using st WaitLock by (auto split: if_splits)
  show ?thesis
  proof (cases "pools s db")
    case None
    then have "c' = Creating db" and "s' = s\<lparr>pool_lock := True\<rparr>"
      using st WaitLock free by auto
    then show ?thesis
      using reg tasks_ok_take_lock [OF tasks i _ free None] at WaitLock
      by (simp add: registry_ok_lock)
  next
    case (Some p)
    then have "s' = s" and "task_ok orgs s (oid, c')" and "holds_lock (oid, c') = 0"
      using st WaitLock free res by auto
    then show ?thesis
      using reg tasks_ok_quiet_step [OF tasks i] at WaitLock by simp
  qed
next
  case (Creating db)
  have at': "ts ! i = (oid, Creating db)" using at Creating by simp
  note c = creating_holds [OF tasks i at']
  show ?thesis
  proof (cases outcome)
    case (Some e)
    then have "c' = Failed e" and "s' = s\<lparr>pool_lock := False\<rparr>"
      using st Creating by (auto simp: create_pool_def)
    then show ?thesis
      using reg tasks_ok_create_failed [OF tasks i at'] by (simp add: registry_ok_lock)
  next
    case None
    then have "c' = Done db (length (created s))"
      and "s' = s\<lparr>created := created s @ [(db, org_pool_args bd db)],
                   pools := (pools s)(db \<mapsto> length (created s)), pool_lock := False\<rparr>"
      using st Creating by (auto simp: create_pool_def)
    then show ?thesis
      using registry_ok_insert [OF reg c(3)] tasks_ok_create_done [OF tasks i at'] by simp
  qed
next
  case (Done db p)
  then show ?thesis using st by simp
next
  case (Failed e)
  then show ?thesis using st by simp
qed

lemma reachable_invariant:
  "reachable bd orgs ts s \<Longrightarrow> registry_ok bd s \<and> tasks_ok orgs ts s"
proof (induction rule: reachable.induct)
  case init
  show ?case by (simp add: registry_ok_init tasks_ok_init)
next
  case (spawn ts s oid)
  then show ?case by (simp add: tasks_ok_spawn)
next
  case (run ts s i oid c avail outcome c' s')
  then show ?case using step_preserves by blast
qed

lemma registry_ok_entry:
  "registry_ok bd s \<Longrightarrow> pools s db = Some p \<Longrightarrow> p < length (created s) \<and> fst (created s ! p) = db"
  unfolding registry_ok_def by blast

lemma registry_ok_object:
  "registry_ok bd s \<Longrightarrow> p < length (created s) \<Longrightarrow>
   pools s (fst (created s ! p)) = Some p
   \<and> snd (created s ! p) = org_pool_args bd (fst (created s ! p))"
  unfolding registry_ok_def by blast

lemma registry_ok_distinct:
  assumes "registry_ok bd s"
  shows "distinct (map fst (created s))"
proof -
  have "i = j" if "i < length (created s)" "j < length (created s)"
    "fst (created s ! i) = fst (created s ! j)" for i j
  proof -
    have "Some i = pools s (fst (created s ! i))"
      using registry_ok_object [OF assms that(1)] by simp
    also have "\<dots> = pools s (fst (created s ! j))"
      by (rule arg_cong [OF that(3)])
    also have "\<dots> = Some j"
      using registry_ok_object [OF assms that(2)] by simp
    finally show ?thesis by (simp only: option.inject)
  qed
  then show ?thesis unfolding distinct_conv_nth by (metis length_map nth_map)
qed


text \<open>
  Run alone from a state where the lock is free, a task does what the uninterrupted
  \<open>get_org_connection\<close> does.
\<close>

lemma run_task_get_org_connection:
  assumes "\<not> pool_lock s"
  shows "(case run_task 4 bd central outcome oid Resolving s of
            (c, s') \<Rightarrow> map_option (\<lambda>r. (r, s')) (returned c))
         = get_org_connection bd central outcome oid s"
  using assms
  by (auto simp: eval_nat_numeral get_org_connection_def get_org_pool_def returned_def
        create_pool_def aurora_lock_release
      split: sum.splits option.splits)

lemma reachable_step:
  assumes "reachable bd orgs ts s" and "i < length ts"
    and "step bd (central_state avail orgs) outcome (fst (ts ! i)) (snd (ts ! i)) s = Some (c', s')"
    and "ts' = ts[i := (fst (ts ! i), c')]"
  shows "reachable bd orgs ts' s'"
  using reachable.run [OF assms(1,2), of "fst (ts ! i)" "snd (ts ! i)" avail outcome c' s'] assms(3,4)
  by simp





lemma cached_hit:
  "connection_pools s oid = Some p \<Longrightarrow>
   get_org_connection_cached get_organization outcome oid s = (Inr p, s)"
  by (simp add: get_org_connection_cached_def)

lemma cached_keeps:
  "connection_pools s oid = Some p \<Longrightarrow>
   connection_pools (snd (get_org_connection_cached g outcome oid' s)) oid = Some p"
  by (auto simp: get_org_connection_cached_def create_pool_def
           split: option.splits sum.splits)

lemma serve_all_keeps:
  "connection_pools s oid = Some p \<Longrightarrow> connection_pools (serve_all reqs s) oid = Some p"
proof (induction reqs arbitrary: s)
  case Nil
  then show ?case by simp
next
  case (Cons req reqs)
  obtain g outcome oid' where "req = (g, outcome, oid')" by (cases req)
  then show ?case using Cons cached_keeps by simp
qed

lemma svc_hit: "pools s db = Some p \<Longrightarrow> get_org_pool_svc bd outcome db s = (Inr p, s)"
  by (simp add: get_org_pool_svc_def)

lemma svc_keeps:
  "pools s db = Some p \<Longrightarrow> pools (snd (get_org_pool_svc bd outcome db' s)) db = Some p"
  by (auto simp: get_org_pool_svc_def create_pool_def split: option.splits)

text \<open>
  The registry with the lock: in every configuration the server can reach, whatever
  the interleaving of the requests, no two constructed pools belong to the same
  locator (at most one pool is ever constructed per locator) and at most one request
  is constructing a pool,
  exactly when the lock is taken; an entry of the registry is a pool constructed for
  its locator, and an acquire that finds it returns that very object and leaves the
  registry and the constructed pools as they are; every request that has returned
  for a locator holds the registry's entry for it, so all of them hold the same
  object. The cache of the multi-tenancy flows answers a hit in the same way.
\<close>

lemma at_most_one_pool_per_locator:
  assumes "reachable build_dsn orgs ts s"
  shows "distinct (map fst (created s))
         \<and> sum_list (map holds_lock ts) = (if pool_lock s then 1 else 0)
         \<and> (\<forall>db p. pools s db = Some p \<longrightarrow>
               p < length (created s) \<and> fst (created s ! p) = db
               \<and> (\<forall>outcome. get_org_pool build_dsn outcome db s = Some (Inr p, s)))
         \<and> (\<forall>oid db p. (oid, Done db p) \<in> set ts \<longrightarrow> pools s db = Some p)
         \<and> (\<forall>t oid q get_organization outcome.
               connection_pools t oid = Some q \<longrightarrow>
               get_org_connection_cached get_organization outcome oid t = (Inr q, t))"
proof -
  have inv: "registry_ok build_dsn s" "tasks_ok orgs ts s"
    using reachable_invariant [OF assms] by simp_all
  have "\<forall>oid db p. (oid, Done db p) \<in> set ts \<longrightarrow> pools s db = Some p"
    using inv(2) by (fastforce simp: tasks_ok_def)
  moreover have "\<forall>db p. pools s db = Some p \<longrightarrow>
               p < length (created s) \<and> fst (created s ! p) = db
               \<and> (\<forall>outcome. get_org_pool build_dsn outcome db s = Some (Inr p, s))"
    using registry_ok_entry [OF inv(1)] by (simp add: get_org_pool_hit)
  moreover have "sum_list (map holds_lock ts) = (if pool_lock s then 1 else 0)"
    using inv(2) by (simp add: tasks_ok_def)
  ultimately show ?thesis
    using registry_ok_distinct [OF inv(1)] by (simp add: cached_hit)
qed

lemma at_most_one_pool_per_locator_example:
  "reachable (\<lambda>db. ''postgresql://db.internal/'' @ db)
     [1 \<mapsto> \<lparr>organization_id = 1, organization_name = ''Acme'', slug = ''acme'',
             database_name = ''braidmgr_org_acme'', deleted_at = None\<rparr>]
     [(1, Done ''braidmgr_org_acme'' 0), (1, Done ''braidmgr_org_acme'' 0)]
     \<lparr>pools = [''braidmgr_org_acme'' \<mapsto> 0], pool_lock = False,
      created = [(''braidmgr_org_acme'',
                  org_pool_args (\<lambda>db. ''postgresql://db.internal/'' @ db) ''braidmgr_org_acme'')]\<rparr>
   \<and> distinct (map fst
         [(''braidmgr_org_acme'',
           org_pool_args (\<lambda>db. ''postgresql://db.internal/'' @ db) ''braidmgr_org_acme'')])
   \<and> get_org_pool (\<lambda>db. ''postgresql://db.internal/'' @ db) None ''braidmgr_org_acme''
         \<lparr>pools = [''braidmgr_org_acme'' \<mapsto> 0], pool_lock = False,
          created = [(''braidmgr_org_acme'',
                      org_pool_args (\<lambda>db. ''postgresql://db.internal/'' @ db)
                        ''braidmgr_org_acme'')]\<rparr>
       = Some (Inr 0,
               \<lparr>pools = [''braidmgr_org_acme'' \<mapsto> 0], pool_lock = False,
                created = [(''braidmgr_org_acme'',
                            org_pool_args (\<lambda>db. ''postgresql://db.internal/'' @ db)
                              ''braidmgr_org_acme'')]\<rparr>)"
proof -
  let ?bd = "\<lambda>db. ''postgresql://db.internal/'' @ db"
  let ?orgs = "[(1::UUID) \<mapsto> \<lparr>organization_id = 1, organization_name = ''Acme'', slug = ''acme'',
                       database_name = ''braidmgr_org_acme'', deleted_at = None\<rparr>]"
  let ?a = "''braidmgr_org_acme''"
  let ?s = "\<lparr>pools = [?a \<mapsto> 0], pool_lock = False, created = [(?a, org_pool_args ?bd ?a)]\<rparr>"
  note defs = select_database_name_def central_state_def create_pool_def aurora_init_def
  have "reachable ?bd ?orgs ([] @ [(1, Resolving)]) aurora_init"
    by (rule reachable.spawn [OF reachable.init])
  then have "reachable ?bd ?orgs ([(1, Resolving)] @ [(1, Resolving)]) aurora_init"
    using reachable.spawn by fastforce
  then have r0: "reachable ?bd ?orgs [(1, Resolving), (1, Resolving)] aurora_init"
    by simp
  have r1: "reachable ?bd ?orgs [(1, Start ?a), (1, Resolving)] aurora_init"
    by (rule reachable_step [OF r0, where i = 0 and avail = None]) (simp_all add: defs)
  have r2: "reachable ?bd ?orgs [(1, Start ?a), (1, Start ?a)] aurora_init"
    by (rule reachable_step [OF r1, where i = 1 and avail = None]) (simp_all add: defs)
  have r3: "reachable ?bd ?orgs [(1, WaitLock ?a), (1, Start ?a)] aurora_init"
    by (rule reachable_step [OF r2, where i = 0]) (simp_all add: defs)
  have r4: "reachable ?bd ?orgs [(1, WaitLock ?a), (1, WaitLock ?a)] aurora_init"
    by (rule reachable_step [OF r3, where i = 1]) (simp_all add: defs)
  have r5: "reachable ?bd ?orgs [(1, Creating ?a), (1, WaitLock ?a)]
              (aurora_init\<lparr>pool_lock := True\<rparr>)"
    by (rule reachable_step [OF r4, where i = 0]) (simp_all add: defs)
  have r6: "reachable ?bd ?orgs [(1, Done ?a 0), (1, WaitLock ?a)] ?s"
    by (rule reachable_step [OF r5, where i = 0 and outcome = None]) (simp_all add: defs)
  have r7: "reachable ?bd ?orgs [(1, Done ?a 0), (1, Done ?a 0)] ?s"
    by (rule reachable_step [OF r6, where i = 1]) (simp_all add: defs)
  show ?thesis
    using r7 at_most_one_pool_per_locator [OF r7] by simp
qed



section \<open>Results on the cache of the multi-tenancy flows\<close>

lemma cached_keeps_opened:
  "take (length (opened s)) (opened (snd (get_org_connection_cached g outcome oid s))) = opened s"
  by (simp add: get_org_connection_cached_def create_pool_def
           split: option.splits sum.splits)

lemma serve_all_keeps_opened:
  "take (length (opened s)) (opened (serve_all reqs s)) = opened s"
proof (induction reqs arbitrary: s)
  case Nil
  then show ?case by simp
next
  case (Cons req reqs)
  obtain g outcome oid where req: "req = (g, outcome, oid)" by (cases req)
  have "take (length (opened s))
          (opened (serve_all reqs (snd (get_org_connection_cached g outcome oid s)))) = opened s"
    by (rule take_prefix_trans [OF cached_keeps_opened Cons.IH])
  then show ?case using req by simp
qed

section \<open>Results on concurrent requests without a lock\<close>

lemma run_alone_cached:
  "run_alone 3 (step_cached (g, outcome) oid) Entering s =
     (case get_org_connection_cached g outcome oid s of
        (Inr p, s') \<Rightarrow> (Finished p, s')
      | (Inl e, s') \<Rightarrow> (Raised e, s'))"
  by (auto simp: eval_nat_numeral get_org_connection_cached_def create_pool_def
           split: option.splits sum.splits)

lemma run_alone_svc:
  "run_alone 2 (step_svc bd outcome db) SvcEntering s =
     (case get_org_pool_svc bd outcome db s of
        (Inr p, s') \<Rightarrow> (SvcFinished p, s')
      | (Inl e, s') \<Rightarrow> (SvcRaised e, s'))"
  by (auto simp: eval_nat_numeral get_org_pool_svc_def create_pool_def
           split: option.splits)

lemma evolves_move_at:
  assumes "evolves stepf entry ts s ts' s'" and "i < length ts'"
    and "stepf e (fst (ts' ! i)) (snd (ts' ! i)) s' = Some (c', s'')"
    and "ts'' = ts'[i := (fst (ts' ! i), c')]"
  shows "evolves stepf entry ts s ts'' s''"
  using evolves.move [OF assms(1,2), of "fst (ts' ! i)" "snd (ts' ! i)" e c' s''] assms(3,4)
  by simp

lemma evolves_arrive_at:
  assumes "evolves stepf entry ts s ts' s'" and "ts'' = ts' @ [(k, entry)]"
  shows "evolves stepf entry ts s ts'' s'"
  using evolves.arrive [OF assms(1)] assms(2) by simp

text \<open>
  C3 (at most one pool per locator, concurrent calls included). The two caches that
  take no lock break it. From the empty cache, two requests for the same
  organization that both make their membership test before either has stored a
  pool each build one: the requests return different pool objects, two pools exist
  for the one locator, and the second assignment replaces the entry of the first.
  So it is for \<open>get_org_connection\<close> of the multi-tenancy flows and for
  \<open>get_org_pool\<close> of the service architecture. The registry of the database
  architecture keeps the property, by its lock (\<open>at_most_one_pool_per_locator\<close>).
\<close>

theorem lock_free_caches_build_two_pools:
  "evolves step_cached Entering [] tenancy_init
     [(1, Finished 0), (1, Finished 1)]
     \<lparr>connection_pools = [1 \<mapsto> 1],
      opened =
        [(1, tenancy_pool_args
               \<lparr>organization_id = 1, organization_name = ''Acme'', slug = ''acme'',
                database_name = ''braidmgr_org_acme'', deleted_at = None\<rparr>),
         (1, tenancy_pool_args
               \<lparr>organization_id = 1, organization_name = ''Acme'', slug = ''acme'',
                database_name = ''braidmgr_org_acme'', deleted_at = None\<rparr>)]\<rparr>
   \<and> evolves (step_svc (\<lambda>db. ''postgresql://db.internal/'' @ db)) SvcEntering [] aurora_init
       [(''braidmgr_org_acme'', SvcFinished 0), (''braidmgr_org_acme'', SvcFinished 1)]
       \<lparr>pools = [''braidmgr_org_acme'' \<mapsto> 1], pool_lock = False,
        created =
          [(''braidmgr_org_acme'',
            svc_pool_args (\<lambda>db. ''postgresql://db.internal/'' @ db) ''braidmgr_org_acme''),
           (''braidmgr_org_acme'',
            svc_pool_args (\<lambda>db. ''postgresql://db.internal/'' @ db) ''braidmgr_org_acme'')]\<rparr>"
proof -
  let ?acme = "\<lparr>organization_id = 1, organization_name = ''Acme'', slug = ''acme'',
                database_name = ''braidmgr_org_acme'', deleted_at = None\<rparr>"
  let ?e = "(\<lambda>oid::UUID. Inr (Some ?acme) :: error + organization option, None :: error option)"
  let ?s1 = "\<lparr>connection_pools = [(1::UUID) \<mapsto> 0], opened = [(1, tenancy_pool_args ?acme)]\<rparr>"
  let ?s2 = "\<lparr>connection_pools = [(1::UUID) \<mapsto> 1],
              opened = [(1, tenancy_pool_args ?acme), (1, tenancy_pool_args ?acme)]\<rparr>"
  note defs = create_pool_def tenancy_init_def aurora_init_def
  have c0: "evolves step_cached Entering [] tenancy_init [] tenancy_init"
    by (rule evolves.start)
  have c1: "evolves step_cached Entering [] tenancy_init [(1, Entering)] tenancy_init"
    by (rule evolves_arrive_at [OF c0]) simp
  have c2: "evolves step_cached Entering [] tenancy_init [(1, Entering), (1, Entering)] tenancy_init"
    by (rule evolves_arrive_at [OF c1]) simp
  have c3: "evolves step_cached Entering [] tenancy_init [(1, Fetching), (1, Entering)] tenancy_init"
    by (rule evolves_move_at [OF c2, where i = 0 and e = ?e]) (simp_all add: defs)
  have c4: "evolves step_cached Entering [] tenancy_init [(1, Fetching), (1, Fetching)] tenancy_init"
    by (rule evolves_move_at [OF c3, where i = 1 and e = ?e]) (simp_all add: defs)
  have c5: "evolves step_cached Entering [] tenancy_init
              [(1, Building ?acme), (1, Fetching)] tenancy_init"
    by (rule evolves_move_at [OF c4, where i = 0 and e = ?e]) (simp_all add: defs)
  have c6: "evolves step_cached Entering [] tenancy_init
              [(1, Building ?acme), (1, Building ?acme)] tenancy_init"
    by (rule evolves_move_at [OF c5, where i = 1 and e = ?e]) (simp_all add: defs)
  have c7: "evolves step_cached Entering [] tenancy_init
              [(1, Finished 0), (1, Building ?acme)] ?s1"
    by (rule evolves_move_at [OF c6, where i = 0 and e = ?e]) (simp_all add: defs)
  have c8: "evolves step_cached Entering [] tenancy_init [(1, Finished 0), (1, Finished 1)] ?s2"
    by (rule evolves_move_at [OF c7, where i = 1 and e = ?e]) (simp_all add: defs)
  let ?bd = "\<lambda>db. ''postgresql://db.internal/'' @ db"
  let ?a = "''braidmgr_org_acme''"
  let ?t1 = "\<lparr>pools = [?a \<mapsto> 0], pool_lock = False, created = [(?a, svc_pool_args ?bd ?a)]\<rparr>"
  let ?t2 = "\<lparr>pools = [?a \<mapsto> 1], pool_lock = False,
              created = [(?a, svc_pool_args ?bd ?a), (?a, svc_pool_args ?bd ?a)]\<rparr>"
  have d0: "evolves (step_svc ?bd) SvcEntering [] aurora_init [] aurora_init"
    by (rule evolves.start)
  have d1: "evolves (step_svc ?bd) SvcEntering [] aurora_init [(?a, SvcEntering)] aurora_init"
    by (rule evolves_arrive_at [OF d0]) simp
  have d2: "evolves (step_svc ?bd) SvcEntering [] aurora_init
              [(?a, SvcEntering), (?a, SvcEntering)] aurora_init"
    by (rule evolves_arrive_at [OF d1]) simp
  have d3: "evolves (step_svc ?bd) SvcEntering [] aurora_init
              [(?a, SvcBuilding), (?a, SvcEntering)] aurora_init"
    by (rule evolves_move_at [OF d2, where i = 0 and e = None]) (simp_all add: defs)
  have d4: "evolves (step_svc ?bd) SvcEntering [] aurora_init
              [(?a, SvcBuilding), (?a, SvcBuilding)] aurora_init"
    by (rule evolves_move_at [OF d3, where i = 1 and e = None]) (simp_all add: defs)
  have d5: "evolves (step_svc ?bd) SvcEntering [] aurora_init
              [(?a, SvcFinished 0), (?a, SvcBuilding)] ?t1"
    by (rule evolves_move_at [OF d4, where i = 0 and e = None]) (simp_all add: defs)
  have d6: "evolves (step_svc ?bd) SvcEntering [] aurora_init
              [(?a, SvcFinished 0), (?a, SvcFinished 1)] ?t2"
    by (rule evolves_move_at [OF d5, where i = 1 and e = None]) (simp_all add: defs)
  show ?thesis using c8 d6 by simp
qed

lemma evolves_invariant:
  assumes "evolves stepf entry ts s ts' s'" and "I ts s"
    and "\<And>us u k. I us u \<Longrightarrow> I (us @ [(k, entry)]) u"
    and "\<And>us u i k c e c' u'. I us u \<Longrightarrow> i < length us \<Longrightarrow> us ! i = (k, c) \<Longrightarrow>
           stepf e k c u = Some (c', u') \<Longrightarrow> I (us[i := (k, c')]) u'"
  shows "I ts' s'"
  using assms(1)
proof (induction rule: evolves.induct)
  case start
  show ?case by (rule assms(2))
next
  case (arrive ts' s' k)
  then show ?case using assms(3) by blast
next
  case (move ts' s' i k c e c' s'')
  then show ?case using assms(4) by blast
qed

lemma step_cached_keeps:
  assumes "step_cached e k c s = Some (c', s')"
  shows "take (length (opened s)) (opened s') = opened s"
    and "connection_pools s oid \<noteq> None \<Longrightarrow> connection_pools s' oid \<noteq> None"
    and "k \<noteq> oid \<Longrightarrow> connection_pools s' oid = connection_pools s oid"
  using assms
  by (cases e; cases c; auto simp: create_pool_def split: option.splits sum.splits)+

lemma step_cached_hit:
  "connection_pools s oid = Some p \<Longrightarrow> step_cached e oid Entering s = Some (Finished p, s)"
  by (cases e) simp

lemma step_cached_quiet:
  assumes "step_cached e oid c s = Some (c', s')" and "\<not> in_flight c"
    and "connection_pools s oid = Some p"
  shows "s' = s \<and> c' = Finished p"
  using assms by (cases e; cases c) auto

lemma evolves_cached_keeps:
  assumes "evolves step_cached Entering ts s ts' s'"
  shows "take (length (opened s)) (opened s') = opened s
         \<and> (connection_pools s oid \<noteq> None \<longrightarrow> connection_pools s' oid \<noteq> None)"
proof (rule evolves_invariant [OF assms,
      where I = "\<lambda>us u. take (length (opened s)) (opened u) = opened s
                   \<and> (connection_pools s oid \<noteq> None \<longrightarrow> connection_pools u oid \<noteq> None)"])
  show "take (length (opened s)) (opened s) = opened s
        \<and> (connection_pools s oid \<noteq> None \<longrightarrow> connection_pools s oid \<noteq> None)"
    by simp
next
  fix us :: "(UUID \<times> cached_pc) list" and u k
  assume "take (length (opened s)) (opened u) = opened s
          \<and> (connection_pools s oid \<noteq> None \<longrightarrow> connection_pools u oid \<noteq> None)"
  then show "take (length (opened s)) (opened u) = opened s
          \<and> (connection_pools s oid \<noteq> None \<longrightarrow> connection_pools u oid \<noteq> None)" .
next
  fix us :: "(UUID \<times> cached_pc) list" and u i k c e c' u'
  assume inv: "take (length (opened s)) (opened u) = opened s
          \<and> (connection_pools s oid \<noteq> None \<longrightarrow> connection_pools u oid \<noteq> None)"
    and st: "step_cached e k c u = Some (c', u')"
  have "take (length (opened s)) (opened u') = opened s"
    using inv step_cached_keeps(1) [OF st] by (metis take_prefix_trans)
  then show "take (length (opened s)) (opened u') = opened s
          \<and> (connection_pools s oid \<noteq> None \<longrightarrow> connection_pools u' oid \<noteq> None)"
    using inv step_cached_keeps(2) [OF st] by blast
qed

lemma quiet_entry_arrive: "quiet_entry oid p us u \<Longrightarrow> quiet_entry oid p (us @ [(k, Entering)]) u"
  by (auto simp: quiet_entry_def)

lemma quiet_entry_move:
  assumes q: "quiet_entry oid p us u" and i: "i < length us" and at: "us ! i = (k, c)"
    and st: "step_cached e k c u = Some (c', u')"
  shows "quiet_entry oid p (us[i := (k, c')]) u'"
proof (cases "k = oid")
  case True
  have mem: "(oid, c) \<in> set us" using i at True nth_mem by fastforce
  then have nf: "\<not> in_flight c" using q by (simp add: quiet_entry_def)
  have cp: "connection_pools u oid = Some p" using q by (simp add: quiet_entry_def)
  have same: "u' = u" "c' = Finished p"
    using step_cached_quiet [OF _ nf cp] st True by auto
  have "\<forall>d. (oid, d) \<in> set (us[i := (k, c')]) \<longrightarrow> \<not> in_flight d"
  proof (intro allI impI)
    fix d assume "(oid, d) \<in> set (us[i := (k, c')])"
    then have "(oid, d) = (k, c') \<or> (oid, d) \<in> set us"
      using set_update_subset_insert [of us i "(k, c')"] by auto
    then show "\<not> in_flight d" using same(2) q by (auto simp: quiet_entry_def)
  qed
  then show ?thesis using cp same(1) by (simp add: quiet_entry_def)
next
  case False
  have cp: "connection_pools u' oid = Some p"
    using step_cached_keeps(3) [OF st False] q by (simp add: quiet_entry_def)
  have "\<forall>d. (oid, d) \<in> set (us[i := (k, c')]) \<longrightarrow> \<not> in_flight d"
  proof (intro allI impI)
    fix d assume "(oid, d) \<in> set (us[i := (k, c')])"
    then have "(oid, d) = (k, c') \<or> (oid, d) \<in> set us"
      using set_update_subset_insert [of us i "(k, c')"] by auto
    then show "\<not> in_flight d" using False q by (auto simp: quiet_entry_def)
  qed
  then show ?thesis using cp by (simp add: quiet_entry_def)
qed

lemma evolves_cached_quiet:
  assumes "evolves step_cached Entering ts s ts' s'" and "quiet_entry oid p ts s"
  shows "quiet_entry oid p ts' s'"
  by (rule evolves_invariant [OF assms(1), where I = "quiet_entry oid p"])
     (auto intro: assms(2) quiet_entry_arrive quiet_entry_move)

lemma step_svc_keeps:
  assumes "step_svc bd outcome k c s = Some (c', s')"
  shows "take (length (created s)) (created s') = created s"
    and "pools s db \<noteq> None \<Longrightarrow> pools s' db \<noteq> None"
    and "k \<noteq> db \<Longrightarrow> pools s' db = pools s db"
  using assms
  by (cases c; auto simp: create_pool_def split: option.splits)+

lemma step_svc_hit:
  "pools s db = Some p \<Longrightarrow> step_svc bd outcome db SvcEntering s = Some (SvcFinished p, s)"
  by simp

lemma step_svc_quiet:
  assumes "step_svc bd outcome db c s = Some (c', s')" and "\<not> svc_in_flight c"
    and "pools s db = Some p"
  shows "s' = s \<and> c' = SvcFinished p"
  using assms by (cases c) auto

lemma evolves_svc_keeps:
  assumes "evolves (step_svc bd) SvcEntering ts s ts' s'"
  shows "take (length (created s)) (created s') = created s
         \<and> (pools s db \<noteq> None \<longrightarrow> pools s' db \<noteq> None)"
proof (rule evolves_invariant [OF assms,
      where I = "\<lambda>us u. take (length (created s)) (created u) = created s
                   \<and> (pools s db \<noteq> None \<longrightarrow> pools u db \<noteq> None)"])
  show "take (length (created s)) (created s) = created s
        \<and> (pools s db \<noteq> None \<longrightarrow> pools s db \<noteq> None)"
    by simp
next
  fix us :: "(string \<times> svc_pc) list" and u k
  assume "take (length (created s)) (created u) = created s
          \<and> (pools s db \<noteq> None \<longrightarrow> pools u db \<noteq> None)"
  then show "take (length (created s)) (created u) = created s
          \<and> (pools s db \<noteq> None \<longrightarrow> pools u db \<noteq> None)" .
next
  fix us :: "(string \<times> svc_pc) list" and u i k c e c' u'
  assume inv: "take (length (created s)) (created u) = created s
          \<and> (pools s db \<noteq> None \<longrightarrow> pools u db \<noteq> None)"
    and st: "step_svc bd e k c u = Some (c', u')"
  have "take (length (created s)) (created u') = created s"
    using inv step_svc_keeps(1) [OF st] by (metis take_prefix_trans)
  then show "take (length (created s)) (created u') = created s
          \<and> (pools s db \<noteq> None \<longrightarrow> pools u' db \<noteq> None)"
    using inv step_svc_keeps(2) [OF st] by blast
qed

lemma svc_quiet_entry_arrive:
  "svc_quiet_entry db p us u \<Longrightarrow> svc_quiet_entry db p (us @ [(k, SvcEntering)]) u"
  by (auto simp: svc_quiet_entry_def)

lemma svc_quiet_entry_move:
  assumes q: "svc_quiet_entry db p us u" and i: "i < length us" and at: "us ! i = (k, c)"
    and st: "step_svc bd e k c u = Some (c', u')"
  shows "svc_quiet_entry db p (us[i := (k, c')]) u'"
proof (cases "k = db")
  case True
  have mem: "(db, c) \<in> set us" using i at True nth_mem by fastforce
  then have nf: "\<not> svc_in_flight c" using q by (simp add: svc_quiet_entry_def)
  have cp: "pools u db = Some p" using q by (simp add: svc_quiet_entry_def)
  have same: "u' = u" "c' = SvcFinished p"
    using step_svc_quiet [OF _ nf cp] st True by auto
  have "\<forall>d. (db, d) \<in> set (us[i := (k, c')]) \<longrightarrow> \<not> svc_in_flight d"
  proof (intro allI impI)
    fix d assume "(db, d) \<in> set (us[i := (k, c')])"
    then have "(db, d) = (k, c') \<or> (db, d) \<in> set us"
      using set_update_subset_insert [of us i "(k, c')"] by auto
    then show "\<not> svc_in_flight d" using same(2) q by (auto simp: svc_quiet_entry_def)
  qed
  then show ?thesis using cp same(1) by (simp add: svc_quiet_entry_def)
next
  case False
  have cp: "pools u' db = Some p"
    using step_svc_keeps(3) [OF st False] q by (simp add: svc_quiet_entry_def)
  have "\<forall>d. (db, d) \<in> set (us[i := (k, c')]) \<longrightarrow> \<not> svc_in_flight d"
  proof (intro allI impI)
    fix d assume "(db, d) \<in> set (us[i := (k, c')])"
    then have "(db, d) = (k, c') \<or> (db, d) \<in> set us"
      using set_update_subset_insert [of us i "(k, c')"] by auto
    then show "\<not> svc_in_flight d" using False q by (auto simp: svc_quiet_entry_def)
  qed
  then show ?thesis using cp by (simp add: svc_quiet_entry_def)
qed

lemma evolves_svc_quiet:
  assumes "evolves (step_svc bd) SvcEntering ts s ts' s'" and "svc_quiet_entry db p ts s"
  shows "svc_quiet_entry db p ts' s'"
  by (rule evolves_invariant [OF assms(1), where I = "svc_quiet_entry db p"])
     (auto intro: assms(2) svc_quiet_entry_arrive svc_quiet_entry_move)

lemma get_org_connection_svc_rereads:
  assumes "orgs' oid = Some org'" and "pools t (database_name org') = None"
  shows "get_org_connection_svc bd (Inr orgs') None oid t =
           (Inr (length (created t)),
            t\<lparr>created := created t @ [(database_name org', svc_pool_args bd (database_name org'))],
               pools := (pools t)(database_name org' \<mapsto> length (created t))\<rparr>)"
  using assms
  by (simp add: get_org_connection_svc_def select_database_name_def get_org_pool_svc_def
        create_pool_def)

text \<open>
  C10 as stated fails on both counts. An entry that is cached and has been handed
  out is replaced by a request for the same organization that was already building
  its pool. And in the registry keyed by database name the directory is read on
  every request: after the organization's database is renamed, its next request is
  routed to a newly built pool, not to the cached one.
\<close>

theorem cached_entry_replaced_counterexample:
  "connection_pools
     \<lparr>connection_pools = [1 \<mapsto> 0],
      opened = [(1, tenancy_pool_args
                      \<lparr>organization_id = 1, organization_name = ''Acme'', slug = ''acme'',
                       database_name = ''braidmgr_org_acme'', deleted_at = None\<rparr>)]\<rparr> 1 = Some 0
   \<and> evolves step_cached Entering
       [(1, Finished 0),
        (1, Building \<lparr>organization_id = 1, organization_name = ''Acme'', slug = ''acme'',
                      database_name = ''braidmgr_org_acme'', deleted_at = None\<rparr>)]
       \<lparr>connection_pools = [1 \<mapsto> 0],
        opened = [(1, tenancy_pool_args
                        \<lparr>organization_id = 1, organization_name = ''Acme'', slug = ''acme'',
                         database_name = ''braidmgr_org_acme'', deleted_at = None\<rparr>)]\<rparr>
       [(1, Finished 0), (1, Finished 1)]
       \<lparr>connection_pools = [1 \<mapsto> 1],
        opened = [(1, tenancy_pool_args
                        \<lparr>organization_id = 1, organization_name = ''Acme'', slug = ''acme'',
                         database_name = ''braidmgr_org_acme'', deleted_at = None\<rparr>),
                  (1, tenancy_pool_args
                        \<lparr>organization_id = 1, organization_name = ''Acme'', slug = ''acme'',
                         database_name = ''braidmgr_org_acme'', deleted_at = None\<rparr>)]\<rparr>
   \<and> get_org_connection_svc (\<lambda>db. ''postgresql://db.internal/'' @ db)
       (Inr [1 \<mapsto> \<lparr>organization_id = 1, organization_name = ''Acme'', slug = ''acme'',
                     database_name = ''braidmgr_org_acme'', deleted_at = None\<rparr>])
       None 1 aurora_init
     = (Inr 0,
        \<lparr>pools = [''braidmgr_org_acme'' \<mapsto> 0], pool_lock = False,
         created = [(''braidmgr_org_acme'',
                     svc_pool_args (\<lambda>db. ''postgresql://db.internal/'' @ db)
                       ''braidmgr_org_acme'')]\<rparr>)
   \<and> get_org_connection_svc (\<lambda>db. ''postgresql://db.internal/'' @ db)
       (Inr [1 \<mapsto> \<lparr>organization_id = 1, organization_name = ''Acme'', slug = ''acme'',
                     database_name = ''braidmgr_org_acme_v2'', deleted_at = None\<rparr>])
       None 1
       \<lparr>pools = [''braidmgr_org_acme'' \<mapsto> 0], pool_lock = False,
        created = [(''braidmgr_org_acme'',
                    svc_pool_args (\<lambda>db. ''postgresql://db.internal/'' @ db)
                      ''braidmgr_org_acme'')]\<rparr>
     = (Inr 1,
        \<lparr>pools = [''braidmgr_org_acme'' \<mapsto> 0, ''braidmgr_org_acme_v2'' \<mapsto> 1],
         pool_lock = False,
         created = [(''braidmgr_org_acme'',
                     svc_pool_args (\<lambda>db. ''postgresql://db.internal/'' @ db)
                       ''braidmgr_org_acme''),
                    (''braidmgr_org_acme_v2'',
                     svc_pool_args (\<lambda>db. ''postgresql://db.internal/'' @ db)
                       ''braidmgr_org_acme_v2'')]\<rparr>)"
proof -
  let ?acme = "\<lparr>organization_id = 1, organization_name = ''Acme'', slug = ''acme'',
                database_name = ''braidmgr_org_acme'', deleted_at = None\<rparr>"
  let ?s1 = "\<lparr>connection_pools = [(1::UUID) \<mapsto> 0], opened = [(1, tenancy_pool_args ?acme)]\<rparr>"
  let ?s2 = "\<lparr>connection_pools = [(1::UUID) \<mapsto> 1],
              opened = [(1, tenancy_pool_args ?acme), (1, tenancy_pool_args ?acme)]\<rparr>"
  let ?e = "(\<lambda>oid::UUID. Inr (Some ?acme) :: error + organization option, None :: error option)"
  have c0: "evolves step_cached Entering [(1, Finished 0), (1, Building ?acme)] ?s1
              [(1, Finished 0), (1, Building ?acme)] ?s1"
    by (rule evolves.start)
  have c1: "evolves step_cached Entering [(1, Finished 0), (1, Building ?acme)] ?s1
              [(1, Finished 0), (1, Finished 1)] ?s2"
    by (rule evolves_move_at [OF c0, where i = 1 and e = ?e]) (simp_all add: create_pool_def)
  show ?thesis
    using c1
    by (simp add: get_org_connection_svc_def select_database_name_def get_org_pool_svc_def
          create_pool_def aurora_init_def)
qed

text \<open>
  C10, amended: under every interleaving of requests, no entry is removed or expired
  and the pools built so far stay as they are. In the cache of the multi-tenancy
  flows, once an organization has an entry and no request for it is in flight, the
  entry stays the same pool for good, and a request for the organization returns it
  whatever the central database answers and however a construction would end: the
  directory is not consulted. The registry of the service architecture does the same
  per database name; but \<open>get_org_connection\<close> reads the organization's database
  name from the directory on every request, so once the name has changed to one
  with no entry the request gets a newly built pool.
\<close>

theorem cached_entry_kept_not_refreshed:
  assumes "evolves step_cached Entering ts s ts' s'" and "connection_pools s oid = Some p"
    and "evolves (step_svc build_dsn) SvcEntering us t us' t'" and "pools t db = Some q"
  shows "connection_pools s' oid \<noteq> None
         \<and> take (length (opened s)) (opened s') = opened s
         \<and> ((\<forall>c. (oid, c) \<in> set ts \<longrightarrow> \<not> in_flight c) \<longrightarrow>
              connection_pools s' oid = Some p
              \<and> (\<forall>e. step_cached e oid Entering s' = Some (Finished p, s')))
         \<and> pools t' db \<noteq> None
         \<and> take (length (created t)) (created t') = created t
         \<and> ((\<forall>c. (db, c) \<in> set us \<longrightarrow> \<not> svc_in_flight c) \<longrightarrow>
              pools t' db = Some q
              \<and> (\<forall>outcome. step_svc build_dsn outcome db SvcEntering t' = Some (SvcFinished q, t')))
         \<and> (orgs' oid' = Some org' \<and> pools t' (database_name org') = None \<longrightarrow>
              get_org_connection_svc build_dsn (Inr orgs') None oid' t' =
                (Inr (length (created t')),
                 t'\<lparr>created := created t' @
                       [(database_name org', svc_pool_args build_dsn (database_name org'))],
                    pools := (pools t')(database_name org' \<mapsto> length (created t'))\<rparr>))"
proof -
  have a: "connection_pools s' oid \<noteq> None" "take (length (opened s)) (opened s') = opened s"
    using evolves_cached_keeps [OF assms(1), of oid] assms(2) by simp_all
  have b: "pools t' db \<noteq> None" "take (length (created t)) (created t') = created t"
    using evolves_svc_keeps [OF assms(3), of db] assms(4) by simp_all
  have c: "connection_pools s' oid = Some p
           \<and> (\<forall>e. step_cached e oid Entering s' = Some (Finished p, s'))"
    if "\<forall>c. (oid, c) \<in> set ts \<longrightarrow> \<not> in_flight c"
  proof -
    have "quiet_entry oid p ts s" using that assms(2) by (simp add: quiet_entry_def)
    then have "quiet_entry oid p ts' s'" by (rule evolves_cached_quiet [OF assms(1)])
    then have "connection_pools s' oid = Some p" by (simp add: quiet_entry_def)
    then show ?thesis by (simp add: step_cached_hit)
  qed
  have d: "pools t' db = Some q
           \<and> (\<forall>outcome. step_svc build_dsn outcome db SvcEntering t' = Some (SvcFinished q, t'))"
    if "\<forall>c. (db, c) \<in> set us \<longrightarrow> \<not> svc_in_flight c"
  proof -
    have "svc_quiet_entry db q us t" using that assms(4) by (simp add: svc_quiet_entry_def)
    then have "svc_quiet_entry db q us' t'" by (rule evolves_svc_quiet [OF assms(3)])
    then have "pools t' db = Some q" by (simp add: svc_quiet_entry_def)
    then show ?thesis by simp
  qed
  show ?thesis
    using a b c d get_org_connection_svc_rereads [of orgs' oid' org' t' build_dsn] by blast
qed

theorem cached_entry_kept_not_refreshed_witness:
  "evolves step_cached Entering
     [(1, Finished 0)]
     \<lparr>connection_pools = [1 \<mapsto> 0],
      opened = [(1, tenancy_pool_args
                      \<lparr>organization_id = 1, organization_name = ''Acme'', slug = ''acme'',
                       database_name = ''braidmgr_org_acme'', deleted_at = None\<rparr>)]\<rparr>
     [(1, Finished 0), (1, Finished 0)]
     \<lparr>connection_pools = [1 \<mapsto> 0],
      opened = [(1, tenancy_pool_args
                      \<lparr>organization_id = 1, organization_name = ''Acme'', slug = ''acme'',
                       database_name = ''braidmgr_org_acme'', deleted_at = None\<rparr>)]\<rparr>
   \<and> evolves (step_svc (\<lambda>db. ''postgresql://db.internal/'' @ db)) SvcEntering
       [(''braidmgr_org_acme'', SvcFinished 0)]
       \<lparr>pools = [''braidmgr_org_acme'' \<mapsto> 0], pool_lock = False,
        created = [(''braidmgr_org_acme'',
                    svc_pool_args (\<lambda>db. ''postgresql://db.internal/'' @ db)
                      ''braidmgr_org_acme'')]\<rparr>
       [(''braidmgr_org_acme'', SvcFinished 0), (''braidmgr_org_acme'', SvcFinished 0)]
       \<lparr>pools = [''braidmgr_org_acme'' \<mapsto> 0], pool_lock = False,
        created = [(''braidmgr_org_acme'',
                    svc_pool_args (\<lambda>db. ''postgresql://db.internal/'' @ db)
                      ''braidmgr_org_acme'')]\<rparr>
   \<and> step_cached (\<lambda>oid. Inr None, Some (Asyncpg PostgresConnectionError)) 1 Entering
       \<lparr>connection_pools = [1 \<mapsto> 0],
        opened = [(1, tenancy_pool_args
                        \<lparr>organization_id = 1, organization_name = ''Acme'', slug = ''acme'',
                         database_name = ''braidmgr_org_acme'', deleted_at = None\<rparr>)]\<rparr>
     = Some (Finished 0,
         \<lparr>connection_pools = [1 \<mapsto> 0],
          opened = [(1, tenancy_pool_args
                          \<lparr>organization_id = 1, organization_name = ''Acme'', slug = ''acme'',
                           database_name = ''braidmgr_org_acme'', deleted_at = None\<rparr>)]\<rparr>)
   \<and> fst (get_org_connection_svc (\<lambda>db. ''postgresql://db.internal/'' @ db)
       (Inr [1 \<mapsto> \<lparr>organization_id = 1, organization_name = ''Acme'', slug = ''acme'',
                     database_name = ''braidmgr_org_acme_v2'', deleted_at = None\<rparr>])
       None 1
       \<lparr>pools = [''braidmgr_org_acme'' \<mapsto> 0], pool_lock = False,
        created = [(''braidmgr_org_acme'',
                    svc_pool_args (\<lambda>db. ''postgresql://db.internal/'' @ db)
                      ''braidmgr_org_acme'')]\<rparr>) = Inr 1"
proof -
  let ?acme = "\<lparr>organization_id = 1, organization_name = ''Acme'', slug = ''acme'',
                database_name = ''braidmgr_org_acme'', deleted_at = None\<rparr>"
  let ?moved = "\<lparr>organization_id = 1, organization_name = ''Acme'', slug = ''acme'',
                 database_name = ''braidmgr_org_acme_v2'', deleted_at = None\<rparr>"
  let ?bd = "\<lambda>db. ''postgresql://db.internal/'' @ db"
  let ?a = "''braidmgr_org_acme''"
  let ?s = "\<lparr>connection_pools = [(1::UUID) \<mapsto> 0], opened = [(1, tenancy_pool_args ?acme)]\<rparr>"
  let ?t = "\<lparr>pools = [?a \<mapsto> 0], pool_lock = False, created = [(?a, svc_pool_args ?bd ?a)]\<rparr>"
  let ?gone = "(\<lambda>oid::UUID. Inr None :: error + organization option,
                Some (Asyncpg PostgresConnectionError))"
  have c0: "evolves step_cached Entering [(1, Finished 0)] ?s [(1, Finished 0)] ?s"
    by (rule evolves.start)
  have c1: "evolves step_cached Entering [(1, Finished 0)] ?s [(1, Finished 0), (1, Entering)] ?s"
    by (rule evolves_arrive_at [OF c0]) simp
  have c2: "evolves step_cached Entering [(1, Finished 0)] ?s [(1, Finished 0), (1, Finished 0)] ?s"
    by (rule evolves_move_at [OF c1, where i = 1 and e = ?gone]) simp_all
  have d0: "evolves (step_svc ?bd) SvcEntering [(?a, SvcFinished 0)] ?t [(?a, SvcFinished 0)] ?t"
    by (rule evolves.start)
  have d1: "evolves (step_svc ?bd) SvcEntering [(?a, SvcFinished 0)] ?t
              [(?a, SvcFinished 0), (?a, SvcEntering)] ?t"
    by (rule evolves_arrive_at [OF d0]) simp
  have d2: "evolves (step_svc ?bd) SvcEntering [(?a, SvcFinished 0)] ?t
              [(?a, SvcFinished 0), (?a, SvcFinished 0)] ?t"
    by (rule evolves_move_at [OF d1, where i = 1 and e = None]) simp_all
  have h: "connection_pools ?s 1 = Some 0" "pools ?t ?a = Some 0"
    by simp_all
  have quiet: "\<forall>c. (1, c) \<in> set [(1::UUID, Finished 0)] \<longrightarrow> \<not> in_flight c"
    by simp
  have moved: "[(1::UUID) \<mapsto> ?moved] 1 = Some ?moved
               \<and> pools ?t (database_name ?moved) = None"
    by simp
  show ?thesis
    using c2 d2 quiet moved
      cached_entry_kept_not_refreshed [OF c2 h(1) d2 h(2),
        where orgs' = "[(1::UUID) \<mapsto> ?moved]" and oid' = 1 and org' = ?moved]
    by (simp add: create_pool_def)
qed

end
